theory Spec2Isabelle
  imports Main "HOL-Library.Sublist"
begin

section \<open>The text operations of the script\<close>

text \<open>
  The script \<^verbatim>\<open>fix-uri-imports.py\<close> reads each TypeScript file as text, applies one literal
  replacement and two regular-expression substitutions, and writes the file back when the
  text changed. Text is modelled as \<^typ>\<open>string\<close>. All patterns of the script are ASCII
  and the only character class is the complement of a single ASCII character, so matching
  on the bytes of a UTF-8 text and matching on its code points select the same regions.
\<close>

type_synonym path = string

subsection \<open>Substring test and \<^verbatim>\<open>str.replace\<close>\<close>

text \<open>\<^verbatim>\<open>sub in s\<close>: some suffix of \<open>s\<close> starts with \<open>sub\<close>.\<close>

fun contains :: "string \<Rightarrow> string \<Rightarrow> bool" where
  "contains sub [] = (sub = [])"
| "contains sub (x # xs) = (prefix sub (x # xs) \<or> contains sub xs)"

text \<open>
  \<^verbatim>\<open>s.replace(old, new)\<close>: every non-overlapping occurrence of \<open>old\<close>, found from left
  to right, is replaced. With an empty \<open>old\<close> Python puts \<open>new\<close> before every character and at
  the end.
\<close>

function str_replace :: "string \<Rightarrow> string \<Rightarrow> string \<Rightarrow> string" where
  "str_replace old new [] = (if old = [] then new else [])"
| "str_replace old new (x # xs) =
     (if old = [] then new @ x # str_replace old new xs
      else if prefix old (x # xs) then new @ str_replace old new (drop (length old) (x # xs))
      else x # str_replace old new xs)"
  by pat_completeness auto
termination
  by (relation "measure (\<lambda>(old, new, s). length s)") (auto simp: Suc_diff_le)


subsection \<open>The fragment of \<^verbatim>\<open>re\<close> the script uses\<close>

text \<open>
  The two patterns are built from literal text, the greedy repetition \<^verbatim>\<open>[^c]+\<close> of a
  negated one-character class, concatenation, alternation \<^verbatim>\<open>(?:a|b)\<close> and one capturing
  group.
\<close>

datatype regex =
    Lit string
  | PlusNot char
  | Seq regex regex
  | Alt regex regex
  | Group regex

text \<open>
  The candidates of \<^verbatim>\<open>[^c]+\<close> at the start of a text, in the order the backtracking
  matcher tries them: the longest first.
\<close>

fun plus_not :: "char \<Rightarrow> string \<Rightarrow> string list" where
  "plus_not c [] = []"
| "plus_not c (x # xs) = (if x = c then [] else map ((#) x) (plus_not c xs) @ [[x]])"

text \<open>
  All ways a pattern matches at the start of a text, in backtracking order. A candidate is
  the text consumed and the texts captured by the groups, in the order of their opening
  parentheses.
\<close>

fun rmatch :: "regex \<Rightarrow> string \<Rightarrow> (string \<times> string list) list" where
  "rmatch (Lit l) s = (if prefix l s then [(l, [])] else [])"
| "rmatch (PlusNot c) s = map (\<lambda>m. (m, [])) (plus_not c s)"
| "rmatch (Seq a b) s =
     concat (map (\<lambda>(m1, g1). map (\<lambda>(m2, g2). (m1 @ m2, g1 @ g2)) (rmatch b (drop (length m1) s)))
                 (rmatch a s))"
| "rmatch (Alt a b) s = rmatch a s @ rmatch b s"
| "rmatch (Group a) s = map (\<lambda>(m, g). (m, m # g)) (rmatch a s)"

text \<open>The match the engine reports at a position is the first candidate.\<close>

definition re_match :: "regex \<Rightarrow> string \<Rightarrow> (string \<times> string list) option" where
  "re_match r s = (case rmatch r s of [] \<Rightarrow> None | c # _ \<Rightarrow> Some c)"

text \<open>
  \<^verbatim>\<open>re.sub(pattern, repl, s)\<close>: the text is scanned from left to right; where the
  pattern matches, the replacement computed from the match is emitted and the scan goes on
  behind the match; elsewhere one character is copied. An empty match emits its replacement
  and copies the next character.
\<close>

function re_sub :: "regex \<Rightarrow> (string \<times> string list \<Rightarrow> string) \<Rightarrow> string \<Rightarrow> string" where
  "re_sub r repl [] = (case re_match r [] of None \<Rightarrow> [] | Some mg \<Rightarrow> repl mg)"
| "re_sub r repl (x # xs) =
     (case re_match r (x # xs) of
        None \<Rightarrow> x # re_sub r repl xs
      | Some (m, g) \<Rightarrow>
          if m = [] then repl (m, g) @ x # re_sub r repl xs
          else repl (m, g) @ re_sub r repl (drop (length m) (x # xs)))"
  by pat_completeness auto
termination
  by (relation "measure (\<lambda>(r, repl, s). length s)") (auto simp: Suc_diff_le)

text \<open>\<^verbatim>\<open>re.search\<close>: the pattern matches at some position of the text.\<close>

fun re_search :: "regex \<Rightarrow> string \<Rightarrow> bool" where
  "re_search r [] = (re_match r [] \<noteq> None)"
| "re_search r (x # xs) = (re_match r (x # xs) \<noteq> None \<or> re_search r xs)"

section \<open>The rewriter\<close>

subsection \<open>Literals and patterns\<close>

definition uri_import :: string where
  "uri_import = ''import { URI } from 'vscode-uri'' @ [CHR 0x27]"

definition path_import :: string where
  "path_import = ''import * as path from 'path'' @ [CHR 0x27]"

definition uri_import_stmt :: string where
  "uri_import_stmt = uri_import @ '';''"

definition uri_and_path_import :: string where
  "uri_and_path_import = uri_import @ '';\<newline>'' @ path_import @ '';''"

text \<open>\<^verbatim>\<open>path\.join\((URI\.(?:parse|file)\([^)]+\)),\<close>\<close>

definition join_pattern :: regex where
  "join_pattern =
     Seq (Lit ''path.join('')
      (Seq (Group (Seq (Lit ''URI.'')
                  (Seq (Alt (Lit ''parse'') (Lit ''file''))
                  (Seq (Lit ''('')
                  (Seq (PlusNot CHR '')'')
                       (Lit '')''))))))
           (Lit '',''))"

text \<open>\<^verbatim>\<open>lambda m: f"path.join({m.group(1)}.fsPath,"\<close>\<close>

definition join_repl :: "string \<times> string list \<Rightarrow> string" where
  "join_repl mg = ''path.join('' @ (snd mg ! 0) @ ''.fsPath,''"

text \<open>\<^verbatim>\<open>URI\.joinPath\([^)]+\)\<close>\<close>

definition joinPath_pattern :: regex where
  "joinPath_pattern = Seq (Lit ''URI.joinPath('') (Seq (PlusNot CHR '')'') (Lit '')''))"

definition placeholder :: string where
  \<open>placeholder = ''URI.file("FIXME")''\<close>

subsection \<open>The three rules and \<^verbatim>\<open>fix_file\<close>\<close>

definition rule1 :: "string \<Rightarrow> string" where
  "rule1 content =
     (if contains uri_import content \<and> \<not> contains path_import content
      then str_replace uri_import_stmt uri_and_path_import content
      else content)"

definition rule2 :: "string \<Rightarrow> string" where
  "rule2 content = re_sub join_pattern join_repl content"

definition rule3 :: "string \<Rightarrow> string" where
  "rule3 content = re_sub joinPath_pattern (\<lambda>mg. placeholder) content"

definition fix_content :: "string \<Rightarrow> string" where
  "fix_content original = rule3 (rule2 (rule1 original))"

text \<open>
  The world the script runs in. \<open>files\<close> gives the text that reading a path yields, and
  nothing where the read raises; \<open>write_outcome\<close> tells what writing a path does: it
  succeeds, or opening the file raises and the file stays as it was, or the file is opened
  (and so truncated) and the write raises, leaving some text in the file;
  \<open>glob\<close> and \<open>isfile\<close> answer \<^verbatim>\<open>glob.glob\<close> and \<^verbatim>\<open>os.path.isfile\<close>;
  \<open>stdout\<close> collects the printed lines and \<open>opened_w\<close> the paths opened for writing,
  both in order. An exception is the left summand: the error with the world it leaves.
\<close>

datatype error = ReadError path | WriteError path

datatype write_outcome = Written | OpenRaises | WriteRaises string

record world =
  files :: "path \<rightharpoonup> string"
  write_outcome :: "path \<Rightarrow> write_outcome"
  glob :: "string \<Rightarrow> path list"
  isfile :: "path \<Rightarrow> bool"
  stdout :: "string list"
  opened_w :: "path list"

definition fix_file :: "path \<Rightarrow> world \<Rightarrow> (error \<times> world) + world" where
  "fix_file filepath w =
     (case files w filepath of
        None \<Rightarrow> Inl (ReadError filepath, w)
      | Some original \<Rightarrow>
          let content = fix_content original in
          if content \<noteq> original then
            let w1 = w\<lparr>opened_w := opened_w w @ [filepath]\<rparr> in
            (case write_outcome w filepath of
               OpenRaises \<Rightarrow> Inl (WriteError filepath, w1)
             | WriteRaises left \<Rightarrow>
                 Inl (WriteError filepath, w1\<lparr>files := (files w1)(filepath \<mapsto> left)\<rparr>)
             | Written \<Rightarrow>
                 Inr (w1\<lparr>files := (files w1)(filepath \<mapsto> content),
                        stdout := stdout w1 @ [''Fixed '' @ filepath]\<rparr>))
          else Inr w)"

subsection \<open>The driver loop\<close>

fun for_files :: "path list \<Rightarrow> world \<Rightarrow> (error \<times> world) + world" where
  "for_files [] w = Inr w"
| "for_files (filepath # rest) w =
     (if isfile w filepath
      then (case fix_file filepath w of Inl e \<Rightarrow> Inl e | Inr w' \<Rightarrow> for_files rest w')
      else for_files rest w)"



subsection \<open>Auxiliary notions for the proofs\<close>

text \<open>The common tail \<^verbatim>\<open>[^)]+\)\<close> of both patterns.\<close>

definition until_close :: regex where
  "until_close = Seq (PlusNot CHR '')'') (Lit '')'')"

text \<open>
  A pattern is local when the match at a position is determined by the matched text: it
  is non-empty and matches wherever that text starts.
\<close>

definition local_match :: "regex \<Rightarrow> bool" where
  "local_match r \<longleftrightarrow>
     (\<forall>s m g. re_match r s = Some (m, g) \<longleftrightarrow> prefix m s \<and> m \<noteq> [] \<and> re_match r m = Some (m, g))"

subsection \<open>Example texts\<close>





subsection \<open>Observing a run\<close>

text \<open>The world a call leaves behind, whether it returned or raised.\<close>

definition world_after :: "(error \<times> world) + world \<Rightarrow> world" where
  "world_after r = (case r of Inl (e, w) \<Rightarrow> w | Inr w \<Rightarrow> w)"

text \<open>
  A world with the single file \<^verbatim>\<open>server/src/a.ts\<close> holding the given text, found by the
  glob pattern of the script; \<open>ro\<close> tells whether opening a file for writing raises.
\<close>

definition example_world :: "string \<Rightarrow> bool \<Rightarrow> world" where
  "example_world text ro =
     \<lparr>files = [''server/src/a.ts'' \<mapsto> text], write_outcome = (\<lambda>p. if ro then OpenRaises else Written),
      glob = (\<lambda>pattern. if pattern = ''server/src/**/*.ts'' then [''server/src/a.ts''] else []),
      isfile = (\<lambda>p. True), stdout = [], opened_w = []\<rparr>"



section \<open>Properties of the text operations\<close>

lemma plus_not_prefix: "m \<in> set (plus_not c s) \<Longrightarrow> prefix m s \<and> m \<noteq> []"
  by (induction s arbitrary: m) (auto split: if_splits)

lemma rmatch_prefix: "(m, g) \<in> set (rmatch r s) \<Longrightarrow> prefix m s"
proof (induction r arbitrary: m g s)
  case (Lit l)
  then show ?case by (auto split: if_splits)
next
  case (PlusNot c)
  then show ?case by (auto dest: plus_not_prefix)
next
  case (Seq a b)
  from Seq.prems obtain m1 g1 m2 g2 where
    a: "(m1, g1) \<in> set (rmatch a s)" and
    b: "(m2, g2) \<in> set (rmatch b (drop (length m1) s))" and
    m: "m = m1 @ m2"
    by auto
  from Seq.IH(1)[OF a] obtain t where s: "s = m1 @ t"
    by (auto simp: prefix_def)
  from Seq.IH(2)[OF b] s have "prefix m2 t" by simp
  with s m show ?case by simp
next
  case (Alt a b)
  then show ?case by auto
next
  case (Group a)
  then show ?case by auto
qed

lemma re_match_prefix: "re_match r s = Some (m, g) \<Longrightarrow> prefix m s"
  by (auto simp: re_match_def split: list.splits intro: rmatch_prefix [of m g r s])

subsection \<open>What the two patterns match\<close>

lemma plus_not_Nil_iff: "plus_not c s = [] \<longleftrightarrow> (s = [] \<or> hd s = c)"
  by (cases s) auto

lemma rmatch_plus_not_lit:
  "rmatch (Seq (PlusNot c) (Lit [c])) s =
     (if takeWhile (\<lambda>x. x \<noteq> c) s \<noteq> [] \<and> dropWhile (\<lambda>x. x \<noteq> c) s \<noteq> []
      then [(takeWhile (\<lambda>x. x \<noteq> c) s @ [c], [])] else [])"
proof (induction s)
  case Nil
  then show ?case by simp
next
  case (Cons x xs)
  show ?case
  proof (cases "x = c")
    case True
    then show ?thesis by simp
  next
    case False
    have step: "rmatch (Seq (PlusNot c) (Lit [c])) (x # xs) =
        map (\<lambda>(m, g). (x # m, g)) (rmatch (Seq (PlusNot c) (Lit [c])) xs)
        @ (if prefix [c] xs then [([x, c], [])] else [])"
      using False by (simp add: comp_def case_prod_unfold map_concat)
    show ?thesis
    proof (cases xs)
      case Nil
      with False show ?thesis by simp
    next
      case (Cons y ys)
      show ?thesis unfolding step Cons.IH using False Cons
        by (cases "y = c") (auto simp del: rmatch.simps)
    qed
  qed
qed

lemma span_close:
  "c \<notin> set run \<Longrightarrow> takeWhile (\<lambda>x. x \<noteq> c) (run @ c # rest) = run
     \<and> dropWhile (\<lambda>x. x \<noteq> c) (run @ c # rest) = c # rest"
  by (induction run) auto

lemma rmatch_until_close:
  "rmatch until_close s =
     (if takeWhile (\<lambda>x. x \<noteq> CHR '')'') s \<noteq> [] \<and> dropWhile (\<lambda>x. x \<noteq> CHR '')'') s \<noteq> []
      then [(takeWhile (\<lambda>x. x \<noteq> CHR '')'') s @ '')'', [])] else [])"
  unfolding until_close_def by (rule rmatch_plus_not_lit)

lemma until_close_iff:
  "(m, g) \<in> set (rmatch until_close s) \<longleftrightarrow>
     (\<exists>run. run \<noteq> [] \<and> CHR '')'' \<notin> set run \<and> m = run @ '')'' \<and> prefix m s \<and> g = [])"
proof
  assume "(m, g) \<in> set (rmatch until_close s)"
  then have 1: "takeWhile (\<lambda>x. x \<noteq> CHR '')'') s \<noteq> []" and 2: "dropWhile (\<lambda>x. x \<noteq> CHR '')'') s \<noteq> []"
    and 3: "m = takeWhile (\<lambda>x. x \<noteq> CHR '')'') s @ '')''" and 4: "g = []"
    by (auto simp: rmatch_until_close split: if_splits)
  from 2 have "hd (dropWhile (\<lambda>x. x \<noteq> CHR '')'') s) = CHR '')''"
    using hd_dropWhile[of "\<lambda>x. x \<noteq> CHR '')''" s] by simp
  with 2 obtain rest where "dropWhile (\<lambda>x. x \<noteq> CHR '')'') s = CHR '')'' # rest"
    by (cases "dropWhile (\<lambda>x. x \<noteq> CHR '')'') s") auto
  then have "s = takeWhile (\<lambda>x. x \<noteq> CHR '')'') s @ CHR '')'' # rest"
    using takeWhile_dropWhile_id[of "\<lambda>x. x \<noteq> CHR '')''" s] by simp
  then have "prefix m s" using 3 by (metis append.assoc append_Cons append_Nil prefixI)
  moreover have "CHR '')'' \<notin> set (takeWhile (\<lambda>x. x \<noteq> CHR '')'') s)"
    by (auto dest: set_takeWhileD)
  ultimately show "\<exists>run. run \<noteq> [] \<and> CHR '')'' \<notin> set run \<and> m = run @ '')'' \<and> prefix m s \<and> g = []"
    using 1 3 4 by blast
next
  assume "\<exists>run. run \<noteq> [] \<and> CHR '')'' \<notin> set run \<and> m = run @ '')'' \<and> prefix m s \<and> g = []"
  then obtain run rest where r: "run \<noteq> []" "CHR '')'' \<notin> set run" "m = run @ '')''" "g = []"
    and s: "s = run @ CHR '')'' # rest"
    by (auto simp: prefix_def)
  from span_close[OF r(2), of rest] r s show "(m, g) \<in> set (rmatch until_close s)"
    by (simp add: rmatch_until_close)
qed

lemma until_close_le1: "length (rmatch until_close s) \<le> Suc 0"
  by (simp add: rmatch_until_close)

lemma re_match_le1:
  "length (rmatch r s) \<le> Suc 0 \<Longrightarrow> re_match r s = Some c \<longleftrightarrow> c \<in> set (rmatch r s)"
  by (cases "rmatch r s") (auto simp: re_match_def)





lemma prefix_drop_iff:
  "prefix m1 s \<Longrightarrow> prefix m2 (drop (length m1) s) \<longleftrightarrow> prefix (m1 @ m2) s"
  by (auto simp: prefix_def)

lemma rmatch_Seq_mem:
  "(m, g) \<in> set (rmatch (Seq a b) s) \<longleftrightarrow>
      (\<exists>m1 g1 m2 g2. m = m1 @ m2 \<and> g = g1 @ g2 \<and> (m1, g1) \<in> set (rmatch a s)
         \<and> (m2, g2) \<in> set (rmatch b (drop (length m1) s)))"
  by (simp add: image_iff Bex_def) blast

lemma rmatch_Lit_iff: "(m, g) \<in> set (rmatch (Lit l) s) \<longleftrightarrow> prefix m s \<and> m = l \<and> g = []"
  by auto

lemma rmatch_Seq_iff:
  assumes "\<And>s m g. (m, g) \<in> set (rmatch a s) \<longleftrightarrow> prefix m s \<and> A m g"
    and "\<And>s m g. (m, g) \<in> set (rmatch b s) \<longleftrightarrow> prefix m s \<and> B m g"
  shows "(m, g) \<in> set (rmatch (Seq a b) s) \<longleftrightarrow>
     prefix m s \<and> (\<exists>m1 g1 m2 g2. m = m1 @ m2 \<and> g = g1 @ g2 \<and> A m1 g1 \<and> B m2 g2)"
proof
  assume "(m, g) \<in> set (rmatch (Seq a b) s)"
  then obtain m1 g1 m2 g2 where mg: "m = m1 @ m2" "g = g1 @ g2"
    and 1: "(m1, g1) \<in> set (rmatch a s)" and 2: "(m2, g2) \<in> set (rmatch b (drop (length m1) s))"
    unfolding rmatch_Seq_mem by blast
  from 1 have p1: "prefix m1 s" and A: "A m1 g1" by (simp_all add: assms(1))
  from 2 have p2: "prefix m2 (drop (length m1) s)" and B: "B m2 g2" by (simp_all add: assms(2))
  from p1 p2 have "prefix m s" by (simp add: prefix_drop_iff mg)
  with mg A B show "prefix m s \<and> (\<exists>m1 g1 m2 g2. m = m1 @ m2 \<and> g = g1 @ g2 \<and> A m1 g1 \<and> B m2 g2)"
    by blast
next
  assume "prefix m s \<and> (\<exists>m1 g1 m2 g2. m = m1 @ m2 \<and> g = g1 @ g2 \<and> A m1 g1 \<and> B m2 g2)"
  then obtain m1 g1 m2 g2 where p: "prefix m s" and mg: "m = m1 @ m2" "g = g1 @ g2"
    and A: "A m1 g1" and B: "B m2 g2"
    by blast
  from p mg have p1: "prefix m1 s" by (auto dest: append_prefixD)
  with p mg have p2: "prefix m2 (drop (length m1) s)" by (simp add: prefix_drop_iff)
  from p1 A have 1: "(m1, g1) \<in> set (rmatch a s)" by (simp add: assms(1))
  from p2 B have 2: "(m2, g2) \<in> set (rmatch b (drop (length m1) s))" by (simp add: assms(2))
  from 1 2 mg show "(m, g) \<in> set (rmatch (Seq a b) s)"
    unfolding rmatch_Seq_mem by blast
qed

lemma rmatch_Alt_iff:
  assumes "\<And>s m g. (m, g) \<in> set (rmatch a s) \<longleftrightarrow> prefix m s \<and> A m g"
    and "\<And>s m g. (m, g) \<in> set (rmatch b s) \<longleftrightarrow> prefix m s \<and> B m g"
  shows "(m, g) \<in> set (rmatch (Alt a b) s) \<longleftrightarrow> prefix m s \<and> (A m g \<or> B m g)"
  using assms by auto

lemma rmatch_Group_iff:
  assumes "\<And>s m g. (m, g) \<in> set (rmatch a s) \<longleftrightarrow> prefix m s \<and> A m g"
  shows "(m, g) \<in> set (rmatch (Group a) s) \<longleftrightarrow> prefix m s \<and> (\<exists>g'. g = m # g' \<and> A m g')"
  using assms by auto

lemma le1_Lit: "length (rmatch (Lit l) s) \<le> Suc 0"
  by simp

lemma le1_Seq:
  assumes "length (rmatch a s) \<le> Suc 0" and "\<And>t. length (rmatch b t) \<le> Suc 0"
  shows "length (rmatch (Seq a b) s) \<le> Suc 0"
proof (cases "rmatch a s")
  case Nil
  then show ?thesis by simp
next
  case (Cons c cs)
  with assms(1) have "rmatch a s = [c]" by simp
  with assms(2) show ?thesis by (simp add: case_prod_unfold)
qed

lemma le1_Group: "length (rmatch a s) \<le> Suc 0 \<Longrightarrow> length (rmatch (Group a) s) \<le> Suc 0"
  by simp

lemma le1_Alt_Lit:
  "\<not> (prefix a s \<and> prefix b s) \<Longrightarrow> length (rmatch (Alt (Lit a) (Lit b)) s) \<le> Suc 0"
  by auto

lemma parse_or_file: "\<not> (prefix ''parse'' s \<and> prefix ''file'' s)"
  by (cases s) auto

lemma join_pattern_le1: "length (rmatch join_pattern s) \<le> Suc 0"
  unfolding join_pattern_def until_close_def[symmetric]
  by (intro le1_Seq le1_Group le1_Lit le1_Alt_Lit parse_or_file until_close_le1)



lemma until_close_iff':
  "(m, g) \<in> set (rmatch until_close s) \<longleftrightarrow>
     prefix m s \<and> (\<exists>run. run \<noteq> [] \<and> CHR '')'' \<notin> set run \<and> m = run @ '')'' \<and> g = [])"
  unfolding until_close_iff by blast

lemma rmatch_Lit_Seq_iff:
  assumes "\<And>s m g. (m, g) \<in> set (rmatch b s) \<longleftrightarrow> prefix m s \<and> B m g"
  shows "(m, g) \<in> set (rmatch (Seq (Lit l) b) s) \<longleftrightarrow> prefix m s \<and> (\<exists>m2. m = l @ m2 \<and> B m2 g)"
proof -
  have "(\<exists>m1 g1 m2 g2. m = m1 @ m2 \<and> g = g1 @ g2 \<and> (m1 = l \<and> g1 = []) \<and> B m2 g2)
      \<longleftrightarrow> (\<exists>m2. m = l @ m2 \<and> B m2 g)"
  proof
    assume "\<exists>m1 g1 m2 g2. m = m1 @ m2 \<and> g = g1 @ g2 \<and> (m1 = l \<and> g1 = []) \<and> B m2 g2"
    then obtain m2 g2 where "m = l @ m2" "g = [] @ g2" "B m2 g2" by blast
    then show "\<exists>m2. m = l @ m2 \<and> B m2 g" by auto
  next
    assume "\<exists>m2. m = l @ m2 \<and> B m2 g"
    then obtain m2 where "m = l @ m2 \<and> g = [] @ g \<and> (l = l \<and> [] = ([]::string list)) \<and> B m2 g" by auto
    then show "\<exists>m1 g1 m2 g2. m = m1 @ m2 \<and> g = g1 @ g2 \<and> (m1 = l \<and> g1 = []) \<and> B m2 g2"
      by (intro exI)
  qed
  then show ?thesis
    by (simp only: rmatch_Seq_iff[OF rmatch_Lit_iff assms])
qed

lemma rmatch_Seq_Lit_iff:
  assumes "\<And>s m g. (m, g) \<in> set (rmatch a s) \<longleftrightarrow> prefix m s \<and> A m g"
  shows "(m, g) \<in> set (rmatch (Seq a (Lit l)) s) \<longleftrightarrow> prefix m s \<and> (\<exists>m1. m = m1 @ l \<and> A m1 g)"
proof -
  have "(\<exists>m1 g1 m2 g2. m = m1 @ m2 \<and> g = g1 @ g2 \<and> A m1 g1 \<and> (m2 = l \<and> g2 = []))
      \<longleftrightarrow> (\<exists>m1. m = m1 @ l \<and> A m1 g)"
  proof
    assume "\<exists>m1 g1 m2 g2. m = m1 @ m2 \<and> g = g1 @ g2 \<and> A m1 g1 \<and> (m2 = l \<and> g2 = [])"
    then obtain m1 g1 where "m = m1 @ l" "g = g1 @ []" "A m1 g1" by blast
    then show "\<exists>m1. m = m1 @ l \<and> A m1 g" by auto
  next
    assume "\<exists>m1. m = m1 @ l \<and> A m1 g"
    then obtain m1 where "m = m1 @ l \<and> g = g @ [] \<and> A m1 g \<and> (l = l \<and> [] = ([]::string list))" by auto
    then show "\<exists>m1 g1 m2 g2. m = m1 @ m2 \<and> g = g1 @ g2 \<and> A m1 g1 \<and> (m2 = l \<and> g2 = [])"
      by (intro exI)
  qed
  then show ?thesis
    by (simp only: rmatch_Seq_iff[OF assms rmatch_Lit_iff])
qed


lemma rmatch_Alt_Lit_Seq_iff:
  assumes "\<And>s m g. (m, g) \<in> set (rmatch b s) \<longleftrightarrow> prefix m s \<and> B m g"
  shows "(m, g) \<in> set (rmatch (Seq (Alt (Lit k) (Lit l)) b) s) \<longleftrightarrow>
     prefix m s \<and> (\<exists>kw m2. (kw = k \<or> kw = l) \<and> m = kw @ m2 \<and> B m2 g)"
proof -
  have "(\<exists>m1 g1 m2 g2. m = m1 @ m2 \<and> g = g1 @ g2 \<and> ((m1 = k \<and> g1 = []) \<or> (m1 = l \<and> g1 = [])) \<and> B m2 g2)
      \<longleftrightarrow> (\<exists>kw m2. (kw = k \<or> kw = l) \<and> m = kw @ m2 \<and> B m2 g)"
  proof
    assume "\<exists>m1 g1 m2 g2. m = m1 @ m2 \<and> g = g1 @ g2 \<and> ((m1 = k \<and> g1 = []) \<or> (m1 = l \<and> g1 = [])) \<and> B m2 g2"
    then obtain m1 m2 g2 where "m1 = k \<or> m1 = l" "m = m1 @ m2" "g = [] @ g2" "B m2 g2" by blast
    then show "\<exists>kw m2. (kw = k \<or> kw = l) \<and> m = kw @ m2 \<and> B m2 g" by auto
  next
    assume "\<exists>kw m2. (kw = k \<or> kw = l) \<and> m = kw @ m2 \<and> B m2 g"
    then obtain kw m2 where
      "m = kw @ m2 \<and> g = [] @ g \<and> ((kw = k \<and> [] = ([]::string list)) \<or> (kw = l \<and> [] = ([]::string list))) \<and> B m2 g"
      by auto
    then show "\<exists>m1 g1 m2 g2. m = m1 @ m2 \<and> g = g1 @ g2 \<and> ((m1 = k \<and> g1 = []) \<or> (m1 = l \<and> g1 = [])) \<and> B m2 g2"
      by (intro exI)
  qed
  then show ?thesis
    by (simp only: rmatch_Seq_iff[OF rmatch_Alt_iff[OF rmatch_Lit_iff rmatch_Lit_iff] assms])
qed

lemma paren_call_iff:
  "(m, g) \<in> set (rmatch (Seq (Lit C) until_close) s) \<longleftrightarrow>
     prefix m s \<and> (\<exists>run. run \<noteq> [] \<and> CHR '')'' \<notin> set run \<and> m = C @ run @ '')'' \<and> g = [])"
proof -
  have "(\<exists>m2. m = C @ m2 \<and> (\<exists>run. run \<noteq> [] \<and> CHR '')'' \<notin> set run \<and> m2 = run @ '')'' \<and> g = []))
    \<longleftrightarrow> (\<exists>run. run \<noteq> [] \<and> CHR '')'' \<notin> set run \<and> m = C @ run @ '')'' \<and> g = [])"
    by auto
  then show ?thesis
    by (simp only: rmatch_Lit_Seq_iff[OF until_close_iff'])
qed

lemma kw_call_iff:
  "(m, g) \<in> set (rmatch (Seq (Alt (Lit k1) (Lit k2)) (Seq (Lit C) until_close)) s) \<longleftrightarrow>
     prefix m s \<and> (\<exists>kw run. (kw = k1 \<or> kw = k2) \<and> run \<noteq> [] \<and> CHR '')'' \<notin> set run
        \<and> m = kw @ C @ run @ '')'' \<and> g = [])"
proof -
  have "(\<exists>kw m2. (kw = k1 \<or> kw = k2) \<and> m = kw @ m2 \<and>
          (\<exists>run. run \<noteq> [] \<and> CHR '')'' \<notin> set run \<and> m2 = C @ run @ '')'' \<and> g = []))
    \<longleftrightarrow> (\<exists>kw run. (kw = k1 \<or> kw = k2) \<and> run \<noteq> [] \<and> CHR '')'' \<notin> set run
        \<and> m = kw @ C @ run @ '')'' \<and> g = [])"
    by auto
  then show ?thesis
    by (simp only: rmatch_Alt_Lit_Seq_iff[OF paren_call_iff])
qed


lemma uri_call_iff:
  "(m, g) \<in> set (rmatch (Group (Seq (Lit B) (Seq (Alt (Lit k1) (Lit k2)) (Seq (Lit C) until_close)))) s) \<longleftrightarrow>
     prefix m s \<and> (\<exists>kw run. (kw = k1 \<or> kw = k2) \<and> run \<noteq> [] \<and> CHR '')'' \<notin> set run
        \<and> m = B @ kw @ C @ run @ '')'' \<and> g = [m])"
proof -
  have "(\<exists>g'. g = m # g' \<and> (\<exists>m2. m = B @ m2 \<and>
          (\<exists>kw run. (kw = k1 \<or> kw = k2) \<and> run \<noteq> [] \<and> CHR '')'' \<notin> set run
             \<and> m2 = kw @ C @ run @ '')'' \<and> g' = [])))
    \<longleftrightarrow> (\<exists>kw run. (kw = k1 \<or> kw = k2) \<and> run \<noteq> [] \<and> CHR '')'' \<notin> set run
        \<and> m = B @ kw @ C @ run @ '')'' \<and> g = [m])"
    by auto
  then show ?thesis
    by (simp only: rmatch_Group_iff[OF rmatch_Lit_Seq_iff[OF kw_call_iff]])
qed

lemma call_shape_iff:
  "(m, g) \<in> set (rmatch (Seq (Lit A) (Seq (Group (Seq (Lit B) (Seq (Alt (Lit k1) (Lit k2))
        (Seq (Lit C) until_close)))) (Lit D))) s) \<longleftrightarrow>
     prefix m s \<and> (\<exists>kw run. (kw = k1 \<or> kw = k2) \<and> run \<noteq> [] \<and> CHR '')'' \<notin> set run
        \<and> m = A @ (B @ kw @ C @ run @ '')'') @ D \<and> g = [B @ kw @ C @ run @ '')''])"
proof -
  have "(\<exists>m2. m = A @ m2 \<and> (\<exists>m1. m2 = m1 @ D \<and>
          (\<exists>kw run. (kw = k1 \<or> kw = k2) \<and> run \<noteq> [] \<and> CHR '')'' \<notin> set run
             \<and> m1 = B @ kw @ C @ run @ '')'' \<and> g = [m1])))
    \<longleftrightarrow> (\<exists>kw run. (kw = k1 \<or> kw = k2) \<and> run \<noteq> [] \<and> CHR '')'' \<notin> set run
        \<and> m = A @ (B @ kw @ C @ run @ '')'') @ D \<and> g = [B @ kw @ C @ run @ '')''])"
    (is "?L \<longleftrightarrow> ?R")
  proof
    assume ?L
    then obtain m1 kw run where "kw = k1 \<or> kw = k2" "run \<noteq> []" "CHR '')'' \<notin> set run"
      "m1 = B @ kw @ C @ run @ '')''" "g = [m1]" "m = A @ m1 @ D"
      by blast
    then show ?R by blast
  next
    assume ?R
    then obtain kw run where k: "kw = k1 \<or> kw = k2" "run \<noteq> []" "CHR '')'' \<notin> set run"
      and m: "m = A @ (B @ kw @ C @ run @ '')'') @ D" and g: "g = [B @ kw @ C @ run @ '')'']"
      by blast
    from k g have "\<exists>kw' run'. (kw' = k1 \<or> kw' = k2) \<and> run' \<noteq> [] \<and> CHR '')'' \<notin> set run'
             \<and> B @ kw @ C @ run @ '')'' = B @ kw' @ C @ run' @ '')'' \<and> g = [B @ kw @ C @ run @ '')'']"
      by blast
    then have "(B @ kw @ C @ run @ '')'') @ D = (B @ kw @ C @ run @ '')'') @ D \<and>
          (\<exists>kw' run'. (kw' = k1 \<or> kw' = k2) \<and> run' \<noteq> [] \<and> CHR '')'' \<notin> set run'
             \<and> B @ kw @ C @ run @ '')'' = B @ kw' @ C @ run' @ '')'' \<and> g = [B @ kw @ C @ run @ '')''])"
      by (rule conjI[OF refl])
    then have "\<exists>m1. (B @ kw @ C @ run @ '')'') @ D = m1 @ D \<and>
          (\<exists>kw run. (kw = k1 \<or> kw = k2) \<and> run \<noteq> [] \<and> CHR '')'' \<notin> set run
             \<and> m1 = B @ kw @ C @ run @ '')'' \<and> g = [m1])"
      by (rule exI[where x="B @ kw @ C @ run @ '')''"])
    with m have "m = A @ ((B @ kw @ C @ run @ '')'') @ D) \<and>
          (\<exists>m1. (B @ kw @ C @ run @ '')'') @ D = m1 @ D \<and>
          (\<exists>kw run. (kw = k1 \<or> kw = k2) \<and> run \<noteq> [] \<and> CHR '')'' \<notin> set run
             \<and> m1 = B @ kw @ C @ run @ '')'' \<and> g = [m1]))"
      by (rule conjI)
    then show ?L by (rule exI[where x="(B @ kw @ C @ run @ '')'') @ D"])
  qed
  then show ?thesis
    by (simp only: rmatch_Lit_Seq_iff[OF rmatch_Seq_Lit_iff[OF uri_call_iff]])
qed

lemma join_match_iff:
  "re_match join_pattern s = Some (m, g) \<longleftrightarrow>
     prefix m s \<and> (\<exists>kw run. (kw = ''parse'' \<or> kw = ''file'') \<and> run \<noteq> [] \<and> CHR '')'' \<notin> set run
        \<and> m = ''path.join('' @ (''URI.'' @ kw @ ''('' @ run @ '')'') @ '',''
        \<and> g = [''URI.'' @ kw @ ''('' @ run @ '')''])"
  unfolding re_match_le1[OF join_pattern_le1]
  unfolding join_pattern_def until_close_def[symmetric]
  by (rule call_shape_iff)

text \<open>Every match of the rule 2 pattern has its one group, so \<^verbatim>\<open>m.group(1)\<close> is defined.\<close>

lemma join_match_groups: "re_match join_pattern s = Some (m, g) \<Longrightarrow> length g = 1"
  unfolding join_match_iff by auto


subsection \<open>Scanning with a pattern whose match depends on the matched text only\<close>

lemma local_matchI:
  assumes "\<And>s m g. re_match r s = Some (m, g) \<longleftrightarrow> prefix m s \<and> Q m g"
    and "\<And>m g. Q m g \<Longrightarrow> m \<noteq> []"
  shows "local_match r"
  unfolding local_match_def using assms by (metis prefix_order.order_refl)

lemma local_match_join: "local_match join_pattern"
  by (rule local_matchI[OF join_match_iff]) auto


lemma local_prefix: "local_match r \<Longrightarrow> re_match r s = Some (m, g) \<Longrightarrow> prefix m s \<and> m \<noteq> []"
  unfolding local_match_def by blast

lemma local_extend:
  "local_match r \<Longrightarrow> re_match r s = Some (m, g) \<Longrightarrow> re_match r (s @ t) = Some (m, g)"
  unfolding local_match_def by (meson prefix_prefix)

lemma local_restrict:
  assumes "local_match r" and "re_match r (s @ t) = Some (m, g)" and "length m \<le> length s"
  shows "re_match r s = Some (m, g)"
proof -
  from assms(1,2) have p: "prefix m (s @ t)" and n: "m \<noteq> []" and mm: "re_match r m = Some (m, g)"
    unfolding local_match_def by blast+
  from p assms(3) have "prefix m s"
    by (metis prefix_length_prefix prefixI)
  with n mm assms(1) show ?thesis unfolding local_match_def by blast
qed

lemma local_Nil: "local_match r \<Longrightarrow> re_match r [] = None"
  using local_prefix[of r "[]"] by (cases "re_match r []") auto

lemma re_sub_Nil: "local_match r \<Longrightarrow> re_sub r f [] = []"
  by (simp add: local_Nil)

lemma re_sub_None: "re_match r (x # xs) = None \<Longrightarrow> re_sub r f (x # xs) = x # re_sub r f xs"
  by simp

lemma re_sub_Some:
  assumes "local_match r" and "re_match r (m @ rest) = Some (m, g)"
  shows "re_sub r f (m @ rest) = f (m, g) @ re_sub r f rest"
proof -
  from local_prefix[OF assms] have n: "m \<noteq> []" by simp
  then obtain x xs where x: "m @ rest = x # xs" by (cases m) auto
  have "re_sub r f (x # xs) = f (m, g) @ re_sub r f (drop (length m) (x # xs))"
    using assms(2) n unfolding x by simp
  then show ?thesis unfolding x[symmetric] by simp
qed


lemma re_sub_scan:
  assumes L: "local_match r"
  shows "\<exists>p1 p2. w = p1 @ p2
           \<and> re_sub r f (w @ t) = re_sub r f p1 @ re_sub r f (p2 @ t)
           \<and> re_sub r f w = re_sub r f p1 @ re_sub r f p2
           \<and> (p2 = [] \<or> (\<exists>m g. re_match r (p2 @ t) = Some (m, g) \<and> length p2 < length m))"
proof (induction w rule: length_induct)
  case (1 w)
  show ?case
  proof (cases w)
    case Nil
    have "w = [] @ [] \<and> re_sub r f (w @ t) = re_sub r f [] @ re_sub r f ([] @ t)
        \<and> re_sub r f w = re_sub r f [] @ re_sub r f []
        \<and> (([]::string) = [] \<or> (\<exists>m g. re_match r ([] @ t) = Some (m, g) \<and> length ([]::string) < length m))"
      using Nil by (simp add: local_Nil[OF L])
    then show ?thesis by blast
  next
    case (Cons x xs)
    show ?thesis
    proof (cases "re_match r (w @ t)")
      case None
      have nw: "re_match r w = None"
      proof (cases "re_match r w")
        case (Some mg)
        then show ?thesis using local_extend[OF L, of w "fst mg" "snd mg" t] None by simp
      qed simp
      from 1 Cons obtain p1 p2 where xs: "xs = p1 @ p2"
        and a: "re_sub r f (xs @ t) = re_sub r f p1 @ re_sub r f (p2 @ t)"
        and b: "re_sub r f xs = re_sub r f p1 @ re_sub r f p2"
        and c: "p2 = [] \<or> (\<exists>m g. re_match r (p2 @ t) = Some (m, g) \<and> length p2 < length m)"
        by (metis length_Cons lessI)
      have np: "re_match r (x # p1) = None"
      proof (cases "re_match r (x # p1)")
        case (Some mg)
        then show ?thesis using local_extend[OF L, of "x # p1" "fst mg" "snd mg" p2] nw Cons xs by simp
      qed simp
      have "w = (x # p1) @ p2" using Cons xs by simp
      moreover have "re_sub r f (w @ t) = re_sub r f (x # p1) @ re_sub r f (p2 @ t)"
        using None a np unfolding Cons by simp
      moreover have "re_sub r f w = re_sub r f (x # p1) @ re_sub r f p2"
        using nw b np unfolding Cons by simp
      ultimately show ?thesis using c by blast
    next
      case (Some mg)
      obtain m g where mg: "mg = (m, g)" by (cases mg)
      with Some have M: "re_match r (w @ t) = Some (m, g)" by simp
      from local_prefix[OF L M] have pm: "prefix m (w @ t)" and n: "m \<noteq> []" by simp_all
      show ?thesis
      proof (cases "length m \<le> length w")
        case True
        from local_restrict[OF L M True] have Mw: "re_match r w = Some (m, g)" .
        from local_prefix[OF L Mw] obtain w' where w': "w = m @ w'" by (auto simp: prefix_def)
        with n have "length w' < length w" by simp
        with 1 obtain p1 p2 where xs: "w' = p1 @ p2"
          and a: "re_sub r f (w' @ t) = re_sub r f p1 @ re_sub r f (p2 @ t)"
          and b: "re_sub r f w' = re_sub r f p1 @ re_sub r f p2"
          and c: "p2 = [] \<or> (\<exists>m g. re_match r (p2 @ t) = Some (m, g) \<and> length p2 < length m)"
          by blast
        have "re_match r ((m @ p1) @ p2) = Some (m, g)" using Mw w' xs by simp
        from local_restrict[OF L this] have Mp: "re_match r (m @ p1) = Some (m, g)" by simp
        have 1: "re_sub r f (m @ p1) = f (m, g) @ re_sub r f p1"
          by (rule re_sub_Some[OF L Mp])
        have "re_match r (m @ (w' @ t)) = Some (m, g)" using M w' by simp
        from re_sub_Some[OF L this] have 2: "re_sub r f (w @ t) = f (m, g) @ re_sub r f (w' @ t)"
          using w' by simp
        have "re_match r (m @ w') = Some (m, g)" using Mw w' by simp
        from re_sub_Some[OF L this] have 3: "re_sub r f w = f (m, g) @ re_sub r f w'"
          using w' by simp
        have "w = (m @ p1) @ p2" using w' xs by simp
        moreover have "re_sub r f (w @ t) = re_sub r f (m @ p1) @ re_sub r f (p2 @ t)"
          using 1 2 a by simp
        moreover have "re_sub r f w = re_sub r f (m @ p1) @ re_sub r f p2"
          using 1 3 b by simp
        ultimately show ?thesis using c by blast
      next
        case False
        have "w = [] @ w \<and> re_sub r f (w @ t) = re_sub r f [] @ re_sub r f (w @ t)
          \<and> re_sub r f w = re_sub r f [] @ re_sub r f w
          \<and> (w = [] \<or> (\<exists>m g. re_match r (w @ t) = Some (m, g) \<and> length w < length m))"
          using M False by (simp add: local_Nil[OF L])
        then show ?thesis by blast
      qed
    qed
  qed
qed

lemma re_sub_append:
  assumes L: "local_match r"
    and ns: "\<And>p2 m g. suffix p2 w \<Longrightarrow> p2 \<noteq> [] \<Longrightarrow> re_match r (p2 @ t) = Some (m, g)
               \<Longrightarrow> length m \<le> length p2"
  shows "re_sub r f (w @ t) = re_sub r f w @ re_sub r f t"
proof -
  from re_sub_scan[OF L, of w f t] obtain p1 p2 where w: "w = p1 @ p2"
    and a: "re_sub r f (w @ t) = re_sub r f p1 @ re_sub r f (p2 @ t)"
    and b: "re_sub r f w = re_sub r f p1 @ re_sub r f p2"
    and c: "p2 = [] \<or> (\<exists>m g. re_match r (p2 @ t) = Some (m, g) \<and> length p2 < length m)"
    by blast
  have "p2 = []"
  proof (rule ccontr)
    assume n: "p2 \<noteq> []"
    with c obtain m g where "re_match r (p2 @ t) = Some (m, g)" "length p2 < length m" by blast
    moreover have "suffix p2 w" using w by (simp add: suffix_def)
    ultimately show False using ns n by fastforce
  qed
  with a b show ?thesis by (simp add: local_Nil[OF L])
qed

lemma re_sub_id:
  "(\<And>s'. suffix s' s \<Longrightarrow> re_match r s' = None) \<Longrightarrow> re_sub r f s = s"
proof (induction s)
  case Nil
  then show ?case by simp
next
  case (Cons x xs)
  have "re_match r (x # xs) = None" using Cons.prems by simp
  moreover have "re_sub r f xs = xs"
    by (rule Cons.IH) (simp add: Cons.prems suffix_Cons)
  ultimately show ?case by simp
qed

lemma re_search_iff: "re_search r s \<longleftrightarrow> (\<exists>s'. suffix s' s \<and> re_match r s' \<noteq> None)"
  by (induction s) (auto simp: suffix_Cons)

lemma re_sub_no_search: "\<not> re_search r s \<Longrightarrow> re_sub r f s = s"
  by (rule re_sub_id) (metis re_search_iff)

lemma join_needs_close: "CHR '')'' \<notin> set s \<Longrightarrow> re_match join_pattern s = None"
proof (cases "re_match join_pattern s")
  case (Some mg)
  assume n: "CHR '')'' \<notin> set s"
  obtain m g where "mg = (m, g)" by (cases mg)
  with Some have "re_match join_pattern s = Some (m, g)" by simp
  then have "prefix m s" "CHR '')'' \<in> set m" unfolding join_match_iff by auto
  with n show ?thesis by (auto dest: set_mono_prefix)
qed simp


lemma suffix_no_close: "suffix s' s \<Longrightarrow> CHR '')'' \<notin> set s \<Longrightarrow> CHR '')'' \<notin> set s'"
  by (auto simp: suffix_def)

lemma rule2_no_close: "CHR '')'' \<notin> set s \<Longrightarrow> rule2 s = s"
  unfolding rule2_def by (rule re_sub_id) (auto intro: join_needs_close dest: suffix_no_close)


lemma first_close_unique:
  assumes "a @ c # r1 = b @ c # r2" and "c \<notin> set a" and "c \<notin> set b"
  shows "a = b \<and> r1 = r2"
  using assms
proof (induction a arbitrary: b)
  case Nil
  then show ?case by (cases b) auto
next
  case (Cons x a)
  then show ?case by (cases b) auto
qed

lemma straddle_split2:
  assumes "w @ u = body @ [c, d]" and "c \<notin> set body" and "u \<noteq> []"
  shows "(c \<notin> set w \<and> (\<exists>b'. c \<notin> set b' \<and> u = b' @ [c, d])) \<or> (u = [d] \<and> w = body @ [c])"
proof -
  from assms(1) obtain us where
    "(w = body @ us \<and> us @ u = [c, d]) \<or> (w @ us = body \<and> u = us @ [c, d])"
    by (auto simp: append_eq_append_conv2)
  then show ?thesis
  proof
    assume h: "w = body @ us \<and> us @ u = [c, d]"
    with assms(3) have "us = [] \<and> u = [c, d] \<or> us = [c] \<and> u = [d]"
      by (cases us) (auto simp: Cons_eq_append_conv append_eq_Cons_conv)
    with h assms(2) show ?thesis by auto
  next
    assume h: "w @ us = body \<and> u = us @ [c, d]"
    with assms(2) have "c \<notin> set w" "c \<notin> set us" by auto
    with h show ?thesis by blast
  qed
qed


lemma straddle_suffix:
  assumes "prefix m (w @ t)" and "length w < length m"
  shows "\<exists>u. m = w @ u \<and> u \<noteq> [] \<and> prefix u t"
proof -
  from assms(1) obtain r where "w @ t = m @ r" by (auto simp: prefix_def)
  then obtain us where "(w = m @ us \<and> us @ t = r) \<or> (w @ us = m \<and> t = us @ r)"
    by (auto simp: append_eq_append_conv2)
  with assms(2) show ?thesis by (auto simp: prefix_def)
qed

lemma join_match_shape:
  assumes "re_match join_pattern s = Some (m, g)"
  shows "\<exists>body. m = body @ ''),'' \<and> CHR '')'' \<notin> set body \<and> join_repl (m, g) = body @ '').fsPath,''"
proof -
  from assms obtain kw run where k: "kw = ''parse'' \<or> kw = ''file''" and r: "CHR '')'' \<notin> set run"
    and m: "m = ''path.join('' @ (''URI.'' @ kw @ ''('' @ run @ '')'') @ '',''"
    and g: "g = [''URI.'' @ kw @ ''('' @ run @ '')'']"
    unfolding join_match_iff by blast
  let ?body = "''path.join(URI.'' @ kw @ ''('' @ run"
  have "m = ?body @ ''),''" using m by simp
  moreover have "CHR '')'' \<notin> set ?body" using k r by auto
  moreover have "join_repl (m, g) = ?body @ '').fsPath,''" using g by (simp add: join_repl_def)
  ultimately show ?thesis by blast
qed

lemma join_straddle:
  assumes "re_match join_pattern (w @ t) = Some (m, g)" and "length w < length m"
  shows "(CHR '')'' \<notin> set w \<and> (\<exists>b'. CHR '')'' \<notin> set b' \<and> prefix (b' @ ''),'') t
            \<and> m = w @ b' @ ''),'' \<and> join_repl (m, g) = w @ b' @ '').fsPath,''))
         \<or> prefix '','' t"
proof -
  from join_match_shape[OF assms(1)] obtain body where m: "m = body @ ''),''"
    and b: "CHR '')'' \<notin> set body" and j: "join_repl (m, g) = body @ '').fsPath,''"
    by blast
  from re_match_prefix[OF assms(1)] have "prefix m (w @ t)" .
  from straddle_suffix[OF this assms(2)] obtain u where u: "m = w @ u" "u \<noteq> []" "prefix u t"
    by blast
  from u(1) m have "w @ u = body @ [CHR '')'', CHR '','']" by simp
  from straddle_split2[OF this b u(2)] show ?thesis
  proof
    assume "CHR '')'' \<notin> set w \<and> (\<exists>b'. CHR '')'' \<notin> set b' \<and> u = b' @ [CHR '')'', CHR '',''])"
    then obtain b' where w: "CHR '')'' \<notin> set w" and b': "CHR '')'' \<notin> set b'"
      and ub: "u = b' @ ''),''" by auto
    from u(1) ub m have "body = w @ b'" by simp
    with j u ub w b' show ?thesis by auto
  next
    assume "u = [CHR '',''] \<and> w = body @ [CHR '')'']"
    with u(3) show ?thesis by simp
  qed
qed


lemma join_matchI:
  assumes "kw = ''parse'' \<or> kw = ''file''" and "run \<noteq> []" and "CHR '')'' \<notin> set run"
  shows "re_match join_pattern ((''path.join('' @ (''URI.'' @ kw @ ''('' @ run @ '')'') @ '','') @ rest)
           = Some (''path.join('' @ (''URI.'' @ kw @ ''('' @ run @ '')'') @ '','',
                   [''URI.'' @ kw @ ''('' @ run @ '')''])"
  unfolding join_match_iff
proof (intro conjI)
  show "\<exists>kwa runa. (kwa = ''parse'' \<or> kwa = ''file'') \<and> runa \<noteq> [] \<and> CHR '')'' \<notin> set runa \<and>
      ''path.join('' @ (''URI.'' @ kw @ ''('' @ run @ '')'') @ '','' =
      ''path.join('' @ (''URI.'' @ kwa @ ''('' @ runa @ '')'') @ '','' \<and>
      [''URI.'' @ kw @ ''('' @ run @ '')''] = [''URI.'' @ kwa @ ''('' @ runa @ '')'']"
    using assms by (intro exI[of _ kw] exI[of _ run] conjI refl)
qed (rule prefixI, rule refl)


lemma rule2_call:
  assumes "x \<noteq> []" and "CHR '')'' \<notin> set x" and "kw = ''parse'' \<or> kw = ''file''"
  shows "rule2 (''path.join(URI.'' @ kw @ ''('' @ x @ ''),'' @ post)
           = ''path.join(URI.'' @ kw @ ''('' @ x @ '').fsPath,'' @ rule2 post"
  using re_sub_Some[OF local_match_join join_matchI[OF assms(3,1,2)], of join_repl post]
  by (simp add: rule2_def join_repl_def)


section \<open>Rules 2 and 3\<close>

text \<open>
  Claim C5. Rule 2 rewrites every occurrence of \<^verbatim>\<open>path.join(URI.parse(x),\<close> and of
  \<^verbatim>\<open>path.join(URI.file(x),\<close>, for a non-empty \<open>x\<close> without a closing parenthesis, to
  the same text with \<^verbatim>\<open>.fsPath\<close> before the comma, wherever the occurrence stands: the
  text before it and the text after it are rewritten by rule 2 on their own.
\<close>

theorem rule2_rewrites_every_call:
  assumes "x \<noteq> []" and "CHR '')'' \<notin> set x" and "kw = ''parse'' \<or> kw = ''file''"
  shows "rule2 (pre @ ''path.join(URI.'' @ kw @ ''('' @ x @ ''),'' @ post)
           = rule2 pre @ ''path.join(URI.'' @ kw @ ''('' @ x @ '').fsPath,'' @ rule2 post"
proof -
  let ?F0 = "''path.join(URI.'' @ kw @ ''('' @ x"
  let ?t = "?F0 @ ''),'' @ post"
  have F0: "CHR '')'' \<notin> set ?F0" using assms by auto
  have t: "rule2 ?t = ?F0 @ '').fsPath,'' @ rule2 post"
    using rule2_call[OF assms, of post] by simp
  from re_sub_scan[OF local_match_join, of pre join_repl ?t] obtain p1 p2 where w: "pre = p1 @ p2"
    and a: "rule2 (pre @ ?t) = rule2 p1 @ rule2 (p2 @ ?t)"
    and b: "rule2 pre = rule2 p1 @ rule2 p2"
    and c: "p2 = [] \<or> (\<exists>m g. re_match join_pattern (p2 @ ?t) = Some (m, g) \<and> length p2 < length m)"
    unfolding rule2_def by blast
  have "rule2 (p2 @ ?t) = rule2 p2 @ rule2 ?t"
  proof (cases "p2 = []")
    case True
    then show ?thesis by (simp add: rule2_def local_Nil[OF local_match_join])
  next
    case False
    with c obtain m g where M: "re_match join_pattern (p2 @ ?t) = Some (m, g)"
      and l: "length p2 < length m" by blast
    have "\<not> prefix '','' ?t" by simp
    with join_straddle[OF M l] obtain b' where p2: "CHR '')'' \<notin> set p2"
      and b': "CHR '')'' \<notin> set b'" and pb: "prefix (b' @ ''),'') ?t"
      and m: "m = p2 @ b' @ ''),''" and j: "join_repl (m, g) = p2 @ b' @ '').fsPath,''"
      by blast
    from pb obtain r where "b' @ CHR '')'' # (CHR '','' # r) = ?F0 @ CHR '')'' # (CHR '','' # post)"
      by (auto simp: prefix_def)
    from first_close_unique[OF this b' F0] have bF: "b' = ?F0" and r: "r = post" by simp_all
    have "re_match join_pattern (m @ post) = Some (m, g)" using M m bF by simp
    from re_sub_Some[OF local_match_join this, of join_repl]
    have "rule2 (m @ post) = join_repl (m, g) @ rule2 post" by (simp add: rule2_def)
    moreover have "m @ post = p2 @ ?t" using m bF by simp
    ultimately have "rule2 (p2 @ ?t) = p2 @ ?F0 @ '').fsPath,'' @ rule2 post"
      using j bF by simp
    with t rule2_no_close[OF p2] show ?thesis by simp
  qed
  with a b t show ?thesis by simp
qed

theorem rule2_rewrites_every_call_witness:
  "rule2 ''a = path.join(URI.parse(x), y); b = path.join(URI.file(z), w)''
     = ''a = path.join(URI.parse(x).fsPath, y); b = path.join(URI.file(z).fsPath, w)''"
proof -
  have 1: "rule2 ''a = '' = ''a = ''" by code_simp
  have 2: "rule2 '' y); b = path.join(URI.file(z), w)'' = '' y); b = path.join(URI.file(z).fsPath, w)''"
    by code_simp
  have "''x'' \<noteq> []" "CHR '')'' \<notin> set ''x''" "''parse'' = ''parse'' \<or> ''parse'' = ''file''"
    by simp_all
  from rule2_rewrites_every_call[OF this, of "''a = ''" "'' y); b = path.join(URI.file(z), w)''"] 1 2
  show ?thesis by simp
qed








section \<open>The file system and the console\<close>

lemma fix_file_env:
  "fix_file p w = Inr w' \<Longrightarrow> isfile w' = isfile w \<and> glob w' = glob w \<and> write_outcome w' = write_outcome w"
  by (auto simp: fix_file_def Let_def split: option.splits if_splits write_outcome.splits)

lemma fix_file_frame:
  "fix_file p w = Inr w' \<Longrightarrow> q \<noteq> p \<Longrightarrow> files w' q = files w q"
  by (auto simp: fix_file_def Let_def split: option.splits if_splits write_outcome.splits)







lemma fix_joinPath_a: "fix_content ''URI.joinPath(a)'' = placeholder"
  by code_simp



lemma for_files_opened:
  assumes "for_files ps w = Inr w'" and "distinct ps"
  shows "opened_w w' = opened_w w @
           filter (\<lambda>p. isfile w p \<and> (case files w p of None \<Rightarrow> False | Some c \<Rightarrow> fix_content c \<noteq> c)) ps"
  using assms
proof (induction ps arbitrary: w)
  case Nil
  then show ?case by simp
next
  case (Cons p ps)
  show ?case
  proof (cases "isfile w p")
    case False
    with Cons show ?thesis by simp
  next
    case True
    with Cons.prems obtain w1 where 1: "fix_file p w = Inr w1" and 2: "for_files ps w1 = Inr w'"
      by (auto split: sum.splits)
    from 1 obtain c where c: "files w p = Some c"
      and o: "opened_w w1 = opened_w w @ (if fix_content c \<noteq> c then [p] else [])"
      by (auto simp: fix_file_def Let_def split: option.splits if_splits write_outcome.splits)
    from Cons.prems(2) have d: "distinct ps" "p \<notin> set ps" by simp_all
    have "filter (\<lambda>q. isfile w1 q \<and> (case files w1 q of None \<Rightarrow> False | Some c \<Rightarrow> fix_content c \<noteq> c)) ps
        = filter (\<lambda>q. isfile w q \<and> (case files w q of None \<Rightarrow> False | Some c \<Rightarrow> fix_content c \<noteq> c)) ps"
    proof (rule filter_cong[OF refl])
      fix q assume "q \<in> set ps"
      with d have "q \<noteq> p" by auto
      from fix_file_frame[OF 1 this] fix_file_env[OF 1]
      show "(isfile w1 q \<and> (case files w1 q of None \<Rightarrow> False | Some c \<Rightarrow> fix_content c \<noteq> c))
          = (isfile w q \<and> (case files w q of None \<Rightarrow> False | Some c \<Rightarrow> fix_content c \<noteq> c))"
        by simp
    qed
    with Cons.IH[OF 2 d(1)] o c True show ?thesis by simp
  qed
qed

text \<open>
  Claim C1. A file is written back exactly when the text after the three rules differs
  from the text read: \<^verbatim>\<open>fix_file\<close> opens the path for writing if and only if
  \<open>fix_content\<close> changed the text; when the text is unchanged the call returns the world as
  it found it (nothing opened for writing, nothing stored, nothing printed); when the text
  changed and the write succeeds, the file holds the new text. Over a whole loop on
  distinct paths, the paths opened for writing are, in order, the regular files whose text
  the three rules change.
\<close>

theorem fix_file_writes_iff_changed:
  assumes "files w p = Some original"
  shows "(opened_w (world_after (fix_file p w)) = opened_w w @ [p]) = (fix_content original \<noteq> original)
       \<and> (fix_content original = original \<longrightarrow> fix_file p w = Inr w)
       \<and> (fix_content original \<noteq> original \<and> write_outcome w p = Written \<longrightarrow>
            (\<exists>w'. fix_file p w = Inr w' \<and> files w' = (files w)(p \<mapsto> fix_content original)))
       \<and> (\<forall>ps w'. for_files ps w = Inr w' \<and> distinct ps \<longrightarrow>
            opened_w w' = opened_w w @
              filter (\<lambda>p. isfile w p \<and> (case files w p of None \<Rightarrow> False | Some c \<Rightarrow> fix_content c \<noteq> c)) ps)"
  using assms for_files_opened
  by (auto simp: fix_file_def world_after_def Let_def split: write_outcome.splits)

theorem fix_file_writes_iff_changed_witness:
  "files (example_world ''URI.joinPath(a)'' False) ''server/src/a.ts'' = Some ''URI.joinPath(a)''
   \<and> opened_w (world_after (fix_file ''server/src/a.ts'' (example_world ''URI.joinPath(a)'' False)))
       = [''server/src/a.ts'']
   \<and> fix_content ''URI.joinPath(a)'' \<noteq> ''URI.joinPath(a)''
   \<and> (\<exists>w'. fix_file ''server/src/a.ts'' (example_world ''URI.joinPath(a)'' False) = Inr w' \<and>
         files w' ''server/src/a.ts'' = Some placeholder)"
proof -
  have f: "files (example_world ''URI.joinPath(a)'' False) ''server/src/a.ts'' = Some ''URI.joinPath(a)''"
    by (simp add: example_world_def)
  have c: "fix_content ''URI.joinPath(a)'' \<noteq> ''URI.joinPath(a)''"
    by (simp add: fix_joinPath_a placeholder_def)
  have nf: "write_outcome (example_world ''URI.joinPath(a)'' False) ''server/src/a.ts'' = Written"
    by (simp add: example_world_def)
  from fix_file_writes_iff_changed[OF f] c nf f show ?thesis
    by (auto simp: example_world_def fix_joinPath_a)
qed





section \<open>Limits of rule 2\<close>

lemma rule2_close_alone: "rule2 '')'' = '')''"
  by code_simp

lemma suffix_snoc_last: "suffix p2 (u @ [c]) \<Longrightarrow> p2 \<noteq> [] \<Longrightarrow> c \<in> set p2"
  by (auto simp: suffix_def append_eq_append_conv2 append_eq_Cons_conv Cons_eq_append_conv)

lemma rule2_at_close:
  assumes "\<not> prefix '','' t"
  shows "rule2 (u @ '')'' @ t) = rule2 u @ '')'' @ rule2 t"
proof -
  have 1: "rule2 ((u @ '')'') @ t) = rule2 (u @ '')'') @ rule2 t"
    unfolding rule2_def
  proof (rule re_sub_append[OF local_match_join])
    fix p2 m g
    assume s: "suffix p2 (u @ '')'')" and n: "p2 \<noteq> []"
      and M: "re_match join_pattern (p2 @ t) = Some (m, g)"
    show "length m \<le> length p2"
    proof (rule ccontr)
      assume "\<not> length m \<le> length p2"
      then have "length p2 < length m" by simp
      from join_straddle[OF M this] assms have "CHR '')'' \<notin> set p2" by blast
      with suffix_snoc_last[OF s n] show False by simp
    qed
  qed
  have 2: "rule2 (u @ '')'') = rule2 u @ rule2 '')''"
    unfolding rule2_def
  proof (rule re_sub_append[OF local_match_join])
    fix p2 m g
    assume M: "re_match join_pattern (p2 @ '')'') = Some (m, g)"
    show "length m \<le> length p2"
    proof (rule ccontr)
      assume "\<not> length m \<le> length p2"
      then have "length p2 < length m" by simp
      from join_straddle[OF M this] obtain b' where "prefix (b' @ ''),'') '')''"
        by auto
      then have "length (b' @ ''),'') \<le> length '')''" by (rule prefix_length_le)
      then show False by simp
    qed
  qed
  from 1 2 show ?thesis by (simp add: rule2_close_alone)
qed

lemma rule2_before_plain:
  assumes "CHR '')'' \<notin> set v" and "\<not> prefix '','' v"
  shows "rule2 (pre @ v) = rule2 pre @ v"
proof -
  have "rule2 (pre @ v) = rule2 pre @ rule2 v"
    unfolding rule2_def
  proof (rule re_sub_append[OF local_match_join])
    fix p2 m g
    assume M: "re_match join_pattern (p2 @ v) = Some (m, g)"
    show "length m \<le> length p2"
    proof (rule ccontr)
      assume "\<not> length m \<le> length p2"
      then have "length p2 < length m" by simp
      from join_straddle[OF M this] assms(2) obtain b' where "prefix (b' @ ''),'') v"
        by auto
      then have "CHR '')'' \<in> set v" by (auto simp: prefix_def)
      with assms(1) show False by simp
    qed
  qed
  with rule2_no_close[OF assms(1)] show ?thesis by simp
qed

text \<open>
  Claim C7, as the code has it. In a call \<^verbatim>\<open>path.join(URI.parse(\<close> or
  \<^verbatim>\<open>path.join(URI.file(\<close> whose argument text reaches a closing parenthesis that is not
  directly followed by a comma (as in \<^verbatim>\<open>path.join(URI.parse(f(x)), y)\<close>), rule 2 matches
  nothing up to and including that parenthesis: the call is copied unchanged, and the text
  before it and behind the parenthesis are rewritten on their own.
\<close>

theorem rule2_skips_unless_comma:
  assumes "CHR '')'' \<notin> set a" and "\<not> prefix '','' t" and "kw = ''parse'' \<or> kw = ''file''"
  shows "rule2 (pre @ ''path.join(URI.'' @ kw @ ''('' @ a @ '')'' @ t)
           = rule2 pre @ ''path.join(URI.'' @ kw @ ''('' @ a @ '')'' @ rule2 t"
proof -
  let ?v = "''path.join(URI.'' @ kw @ ''('' @ a"
  have v: "CHR '')'' \<notin> set ?v" "\<not> prefix '','' ?v" using assms(1,3) by auto
  have "rule2 ((pre @ ?v) @ '')'' @ t) = rule2 (pre @ ?v) @ '')'' @ rule2 t"
    by (rule rule2_at_close[OF assms(2)])
  with rule2_before_plain[OF v, of pre] show ?thesis by simp
qed

text \<open>
  The claim as stated (no call with a nested closing parenthesis is rewritten) fails when
  the nested parenthesis is directly followed by a comma: the pattern matches up to that
  comma and \<^verbatim>\<open>.fsPath\<close> is put behind the nested parenthesis.
\<close>

theorem rule2_nested_close_counterexample:
  "re_match join_pattern ''path.join(URI.parse(f(a),b),c)''
     = Some (''path.join(URI.parse(f(a),'', [''URI.parse(f(a)''])
   \<and> rule2 ''path.join(URI.parse(f(a),b),c)'' = ''path.join(URI.parse(f(a).fsPath,b),c)''"
  by code_simp

theorem rule2_skips_unless_comma_witness:
  "rule2 ''x = path.join(URI.parse(f(x)), y);'' = ''x = path.join(URI.parse(f(x)), y);''"
proof -
  have 1: "rule2 ''x = '' = ''x = ''" by code_simp
  have 2: "rule2 ''), y);'' = ''), y);''" by code_simp
  have "CHR '')'' \<notin> set ''f(x''" "\<not> prefix '','' ''), y);''" "''parse'' = ''parse'' \<or> ''parse'' = ''file''"
    by simp_all
  from rule2_skips_unless_comma[OF this, of "''x = ''"] 1 2 show ?thesis by simp
qed

lemma str_replace_absent: "\<not> contains old s \<Longrightarrow> str_replace old new s = s"
  by (induction old new s rule: str_replace.induct) auto

lemma rule1_no_import: "\<not> contains uri_import c \<Longrightarrow> rule1 c = c"
  by (simp add: rule1_def)

section \<open>Rule 1 and the whole rewriter\<close>

text \<open>
  Claim C2, as the code has it. On a text without the URI import literal rule 1 changes
  nothing, and rules 2 and 3 run all the same: the result is rule 3 applied to rule 2 of the
  text. When in addition neither pattern matches anywhere in the text, the text is
  unchanged and \<^verbatim>\<open>fix_file\<close> returns the world as it found it: nothing written, nothing
  reported.
\<close>

theorem no_import_only_rules_2_3:
  assumes "\<not> contains uri_import c"
  shows "rule1 c = c \<and> fix_content c = rule3 (rule2 c)
       \<and> (\<not> re_search join_pattern c \<and> \<not> re_search joinPath_pattern c \<longrightarrow>
            fix_content c = c \<and> (\<forall>w p. files w p = Some c \<longrightarrow> fix_file p w = Inr w))"
proof -
  have 1: "rule1 c = c" by (rule rule1_no_import[OF assms])
  have 2: "fix_content c = rule3 (rule2 c)" by (simp add: fix_content_def 1)
  have 3: "fix_content c = c" if "\<not> re_search join_pattern c" "\<not> re_search joinPath_pattern c"
    using that by (simp add: 2 rule2_def rule3_def re_sub_no_search)
  have "fix_file p w = Inr w" if "fix_content c = c" "files w p = Some c" for w p
    using that by (simp add: fix_file_def)
  with 1 2 3 show ?thesis by blast
qed

text \<open>
  The claim as stated (no URI import, hence unchanged and not reported, whatever calls the
  text contains) fails on a file that holds only \<^verbatim>\<open>URI.joinPath(a)\<close>: rule 3 rewrites it
  and the file is reported as fixed.
\<close>

theorem no_import_counterexample:
  "\<not> contains uri_import ''URI.joinPath(a)''
   \<and> fix_content ''URI.joinPath(a)'' = placeholder \<and> placeholder \<noteq> ''URI.joinPath(a)''
   \<and> stdout (world_after (fix_file ''server/src/a.ts'' (example_world ''URI.joinPath(a)'' False)))
       = [''Fixed server/src/a.ts'']"
proof -
  have "\<not> contains uri_import ''URI.joinPath(a)''" by code_simp
  moreover have "placeholder \<noteq> ''URI.joinPath(a)''" by code_simp
  ultimately show ?thesis
    by (simp add: fix_joinPath_a fix_file_def example_world_def world_after_def)
qed

theorem no_import_only_rules_2_3_witness:
  "\<not> contains uri_import ''const p = path.join(a, b);''
   \<and> fix_content ''const p = path.join(a, b);'' = ''const p = path.join(a, b);''
   \<and> fix_file ''server/src/a.ts'' (example_world ''const p = path.join(a, b);'' False)
        = Inr (example_world ''const p = path.join(a, b);'' False)"
proof -
  have 1: "\<not> contains uri_import ''const p = path.join(a, b);''" by code_simp
  have 2: "\<not> re_search join_pattern ''const p = path.join(a, b);''" by code_simp
  have 3: "\<not> re_search joinPath_pattern ''const p = path.join(a, b);''" by code_simp
  have 4: "files (example_world ''const p = path.join(a, b);'' False) ''server/src/a.ts''
             = Some ''const p = path.join(a, b);''"
    by (simp add: example_world_def)
  from no_import_only_rules_2_3[OF 1] 1 2 3 4 show ?thesis by blast
qed

text \<open>
  Claim C10. When the text contains the URI import literal but nowhere followed by a
  semicolon, and not the path import literal, the test of rule 1 holds and the replacement
  finds nothing to replace: rule 1 leaves the text unchanged.
\<close>

theorem missing_semicolon_no_insert:
  assumes "contains uri_import c" and "\<not> contains uri_import_stmt c" and "\<not> contains path_import c"
  shows "str_replace uri_import_stmt uri_and_path_import c = c \<and> rule1 c = c"
  using assms by (simp add: rule1_def str_replace_absent)

theorem missing_semicolon_no_insert_witness:
  "contains uri_import (uri_import @ ''\<newline>foo();'')
   \<and> \<not> contains uri_import_stmt (uri_import @ ''\<newline>foo();'')
   \<and> \<not> contains path_import (uri_import @ ''\<newline>foo();'')
   \<and> rule1 (uri_import @ ''\<newline>foo();'') = uri_import @ ''\<newline>foo();''"
proof -
  have 1: "contains uri_import (uri_import @ ''\<newline>foo();'')" by code_simp
  have 2: "\<not> contains uri_import_stmt (uri_import @ ''\<newline>foo();'')" by code_simp
  have 3: "\<not> contains path_import (uri_import @ ''\<newline>foo();'')" by code_simp
  from missing_semicolon_no_insert[OF 1 2 3] 1 2 3 show ?thesis by simp
qed

subsection \<open>Where rule 1 inserts\<close>


lemma contains_Nil: "contains [] s"
  by (cases s) auto




lemma contains_append_left: "contains sub a \<Longrightarrow> contains sub (a @ b)"
proof (induction a)
  case Nil
  then show ?case by (simp add: contains_Nil)
next
  case (Cons x a)
  from Cons.prems have "prefix sub (x # a) \<or> contains sub a" by simp
  then show ?case
  proof
    assume "prefix sub (x # a)"
    then have "prefix sub ((x # a) @ b)" by (rule prefix_prefix)
    then show ?thesis by simp
  next
    assume "contains sub a"
    with Cons.IH show ?thesis by simp
  qed
qed



















section \<open>Running the rewriter twice\<close>
















end
